theory Spec2Isabelle
  imports Main "HOL-Library.Multiset" "HOL-Library.AList"
begin

section \<open>The trim writer (merge.go, type trimWriter)\<close>

text \<open>
  A \<open>trimWriter\<close> wraps a destination writer, a prefix, a suffix and a buffer.
  The destination \<open>tw.w\<close> is modelled by the bytes it has received so far
  (\<open>tw_w\<close>): every write to it appends and succeeds, as on a \<open>bytes.Buffer\<close>.
  The fields keep the source's names behind the tag \<open>tw_\<close>.
\<close>

record trimWriter =
  tw_w :: string
  tw_prefix :: string
  tw_suffix :: string
  tw_buf :: string

definition newTrimWriter :: "string \<Rightarrow> string \<Rightarrow> string \<Rightarrow> trimWriter" where
  "newTrimWriter dst pre suf =
     \<lparr>tw_w = dst, tw_prefix = pre, tw_suffix = suf, tw_buf = []\<rparr>"

text \<open>
  Lines 229-234 of \<open>Write\<close>: a buffer that is non-empty and at least as long as the
  suffix is written to the destination and emptied.
\<close>

definition flush_buf :: "trimWriter \<Rightarrow> trimWriter" where
  "flush_buf tw =
     (if length (tw_buf tw) > 0 \<and> length (tw_buf tw) \<ge> length (tw_suffix tw)
      then tw\<lparr>tw_w := tw_w tw @ tw_buf tw, tw_buf := []\<rparr>
      else tw)"

text \<open>
  Lines 235-242 of \<open>Write\<close>: bytes no longer than the suffix are appended to the
  buffer; otherwise \<open>i = len(p) - len(suffix) + len(buf)\<close>, the bytes \<open>p[i:]\<close> are
  appended to the buffer and \<open>p[:i]\<close> is written to the destination. After
  \<open>flush_buf\<close> the buffer is shorter than the suffix or empty, so \<open>i \<le> len(p)\<close> and
  both slices are in range.
\<close>

definition hold_back :: "trimWriter \<Rightarrow> string \<Rightarrow> trimWriter" where
  "hold_back tw p =
     (if length p \<le> length (tw_suffix tw)
      then tw\<lparr>tw_buf := tw_buf tw @ p\<rparr>
      else (let i = length p - length (tw_suffix tw) + length (tw_buf tw)
            in tw\<lparr>tw_buf := tw_buf tw @ drop i p, tw_w := tw_w tw @ take i p\<rparr>))"

text \<open>
  \<open>Write\<close>, lines 218-243. A non-empty prefix is never compared with the incoming
  bytes: when it is at least as long as \<open>p\<close>, the call consumes \<open>len(p)\<close> bytes of the
  prefix and writes nothing; otherwise the first \<open>len(prefix)\<close> bytes of \<open>p\<close> are cut off.
\<close>

definition Write :: "trimWriter \<Rightarrow> string \<Rightarrow> trimWriter" where
  "Write tw p =
     (if tw_prefix tw \<noteq> []
      then (if length (tw_prefix tw) \<ge> length p
            then tw\<lparr>tw_prefix := drop (length p) (tw_prefix tw)\<rparr>
            else hold_back (flush_buf (tw\<lparr>tw_prefix := []\<rparr>))
                   (drop (length (tw_prefix tw)) p))
      else hold_back (flush_buf tw) p)"

text \<open>
  \<open>Close\<close>, lines 244-250: a buffer equal to the suffix is discarded, any other buffer
  is written out. The result is the destination after the call.
\<close>

definition Close :: "trimWriter \<Rightarrow> string" where
  "Close tw = (if tw_suffix tw = tw_buf tw then tw_w tw else tw_w tw @ tw_buf tw)"

text \<open>The predicate of Go's \<open>strings.HasPrefix\<close>, used to state claims only.\<close>

definition hasPrefix :: "string \<Rightarrow> string \<Rightarrow> bool" where
  "hasPrefix s pre = (take (length pre) s = pre)"

section \<open>Values, records and the field classifier (merge.go, sliceFields)\<close>

text \<open>
  The Go values the merge handles. A struct is the list of its fields in declared order,
  each with its name, the value of the \<open>json\<close> key of its tag (empty when the tag has
  none) and its value. A slice is either nil or a list of elements, which may be empty.
\<close>

datatype gval =
    GBool bool
  | GInt int
  | GString string
  | GNilSlice
  | GSlice "gval list"
  | GStruct "(string \<times> string \<times> gval) list"
  | GNilPtr
  | GPtr gval

record field =
  Name :: string
  JSONName :: string
  Value :: gval

datatype panic = ReflectPanic | IndexOutOfRange | NilDereference

text \<open>\<open>f.Type().Kind() == reflect.Slice\<close> and \<open>f.IsNil()\<close> (lines 197 and 201).\<close>

fun isSliceKind :: "gval \<Rightarrow> bool" where
  "isSliceKind GNilSlice = True"
| "isSliceKind (GSlice xs) = True"
| "isSliceKind v = False"

fun IsNil :: "gval \<Rightarrow> bool" where
  "IsNil GNilSlice = True"
| "IsNil v = False"

text \<open>
  Lines 189-195: the tag is cut at its first comma, and an empty result is replaced by
  the field's name.
\<close>

definition jsonName :: "string \<Rightarrow> string \<Rightarrow> string" where
  "jsonName name tag =
     (let j = takeWhile (\<lambda>c. c \<noteq> CHR '','') tag in if j = [] then name else j)"

text \<open>
  The loop of lines 185-205 over the fields in declared order: a field that is not of
  slice kind goes to \<open>notSlice\<close>, a nil slice is dropped, any other slice (an empty one
  too) goes to \<open>slice\<close>.
\<close>

fun classify :: "(string \<times> string \<times> gval) list \<Rightarrow> field list \<times> field list" where
  "classify [] = ([], [])"
| "classify ((name, tag, v) # rest) =
     (let fld = \<lparr>Name = name, JSONName = jsonName name tag, Value = v\<rparr>;
          (slice, notSlice) = classify rest
      in if \<not> isSliceKind v then (slice, fld # notSlice)
         else if IsNil v then (slice, notSlice)
         else (fld # slice, notSlice))"

text \<open>
  \<open>sliceFields\<close>, lines 177-207. A pointer is followed once (lines 180-183); on anything
  that is then not a struct, \<open>NumField\<close> (or \<open>Type\<close>, for a nil pointer) panics. The
  fields are taken to be exported ones.
\<close>

definition sliceFields :: "gval \<Rightarrow> panic + (field list \<times> field list)" where
  "sliceFields part =
     (case (case part of GPtr v \<Rightarrow> v | _ \<Rightarrow> part) of
        GStruct fs \<Rightarrow> Inr (classify fs)
      | _ \<Rightarrow> Inl ReflectPanic)"

section \<open>The stream merger (merge.go, mergeStreams)\<close>

text \<open>
  What the merge takes from outside the repository is a parameter of the model:
  \<^item> \<open>enc_writes v\<close>: the byte strings that \<open>jsoniter.NewEncoder(x).Encode(v)\<close> hands to
    \<open>x.Write\<close>, call by call, and \<open>enc_error v\<close>: the error it returns, if any;
  \<^item> \<open>temp_file name\<close>: whether \<open>ioutil.TempFile\<close> succeeds for the field \<open>name\<close>;
  \<^item> \<open>seek_ok name\<close>: whether \<open>Seek(0, 0)\<close> succeeds on that field's file;
  \<^item> \<open>range_files keys\<close>: the order in which \<open>range files\<close> visits the keys of the
    map (\<open>keys\<close> is the order of insertion). Go leaves this order unspecified.
  Writes to the output and to an opened file always succeed and append.
\<close>

record env =
  enc_writes :: "gval \<Rightarrow> string list"
  enc_error :: "gval \<Rightarrow> string option"
  temp_file :: "string \<Rightarrow> bool"
  seek_ok :: "string \<Rightarrow> bool"
  range_files :: "string list \<Rightarrow> string list"

datatype recv_error = EOF | RecvError string

text \<open>The calls of \<open>Log\<close>, in order. With \<open>Log == nil\<close> they are dropped.\<close>

datatype log_event =
    LogSlices "field list"
  | LogEncode gval string
  | LogRecv string
  | LogTempFile string
  | LogNewField string
  | LogSeek string

text \<open>
  The state of a merge: the bytes written to \<open>w\<close>, the map \<open>files\<close> with the contents
  of each temporary file (an association list in order of insertion), the log, and what
  is left of the record source when the call ends. The source is the list of the results
  its \<open>Recv\<close> will return; an exhausted list returns \<open>io.EOF\<close>.
\<close>

record mstate =
  out :: string
  files :: "(string \<times> string) list"
  logged :: "log_event list"
  source :: "(recv_error + gval) list"

datatype 'a flow = Returned (flow_state: 'a) | Next (flow_state: 'a)

text \<open>
  The idiom \<open>tw := newTrimWriter(dst, pre, suf); jsoniter.NewEncoder(tw).Encode(v);
  tw.Close()\<close>; the result is the destination afterwards. The encoder's error is ignored
  there, as in the source.
\<close>

definition Encode :: "env \<Rightarrow> trimWriter \<Rightarrow> gval \<Rightarrow> trimWriter" where
  "Encode e tw v = foldl Write tw (enc_writes e v)"

definition encode_trimmed :: "env \<Rightarrow> string \<Rightarrow> string \<Rightarrow> string \<Rightarrow> gval \<Rightarrow> string" where
  "encode_trimmed e dst pre suf v = Close (Encode e (newTrimWriter dst pre suf) v)"

text \<open>Lines 70-81, one scalar field: name, colon, value, comma; \<open>names[f.Name] = false\<close>.\<close>

definition write_scalar ::
  "env \<Rightarrow> string \<times> (string \<rightharpoonup> bool) \<Rightarrow> field \<Rightarrow> string \<times> (string \<rightharpoonup> bool)" where
  "write_scalar e acc f =
     (let o1 = encode_trimmed e (fst acc) [] ''\<newline>'' (GString (JSONName f));
          o2 = encode_trimmed e (o1 @ '':'') [] ''\<newline>'' (Value f)
      in (o2 @ '','', (snd acc)(Name f \<mapsto> False)))"

text \<open>
  Lines 92-111: one temporary file for each repeated field of the first record after the
  first one. A failing \<open>TempFile\<close> is logged and \<open>mergeStreams\<close> returns at once.
\<close>

fun open_files ::
  "env \<Rightarrow> field list \<Rightarrow> mstate \<Rightarrow> (string \<rightharpoonup> bool) \<Rightarrow> (mstate \<times> (string \<rightharpoonup> bool)) flow" where
  "open_files e [] st names = Next (st, names)"
| "open_files e (f # fs) st names =
     (if \<not> temp_file e (Name f)
      then Returned (st\<lparr>logged := logged st @ [LogTempFile (Name f)]\<rparr>, names)
      else (let fh1 = encode_trimmed e [] [] ''\<newline>'' (GString (JSONName f));
                fh2 = encode_trimmed e (fh1 @ '':['') ''['' '']'' (Value f)
            in open_files e fs
                 (st\<lparr>files := AList.update (Name f) fh2 (files st)\<rparr>)
                 (names(Name f \<mapsto> True))))"

text \<open>
  Lines 66-111: the opening brace, the scalar fields, the first repeated field (its value
  through a trim writer with suffix \<open>]\<close> and no prefix), then the temporary files.
\<close>

definition begin_merge ::
  "env \<Rightarrow> field \<Rightarrow> field list \<Rightarrow> field list
   \<Rightarrow> (mstate \<times> (string \<rightharpoonup> bool)) flow" where
  "begin_merge e f0 others notSlice =
     (let acc = foldl (write_scalar e) (''{'', Map.empty) notSlice;
          o1 = encode_trimmed e (fst acc) [] ''\<newline>'' (GString (JSONName f0));
          o2 = encode_trimmed e (o1 @ '':'') [] '']'' (Value f0)
      in open_files e others
           \<lparr>out = o2, files = [], logged = [LogSlices (f0 # others)], source = []\<rparr>
           ((snd acc)(Name f0 \<mapsto> True)))"

text \<open>
  Lines 125-138: the name of the last field that is not known with its kind, if any; it
  is logged and the record is processed all the same.
\<close>

definition check_names :: "(string \<rightharpoonup> bool) \<Rightarrow> field list \<Rightarrow> field list \<Rightarrow> string option" where
  "check_names names S nS =
     (let bad = map Name (filter (\<lambda>f. names (Name f) \<noteq> Some True) S)
              @ map Name (filter (\<lambda>f. names (Name f) \<noteq> Some False) nS)
      in if bad = [] then None else Some (last bad))"

text \<open>
  Lines 147-155: a comma and the trimmed elements go to the field's file. For a name
  with no file, \<open>files[f.Name]\<close> is a nil \<open>*os.File\<close>: its \<open>Write\<close> returns an error and
  the argument \<open>fh.Name()\<close> of the \<open>Log\<close> call dereferences nil.
\<close>

fun spill :: "env \<Rightarrow> field list \<Rightarrow> (string \<times> string) list \<Rightarrow> panic + (string \<times> string) list" where
  "spill e [] fl = Inr fl"
| "spill e (f # fs) fl =
     (case map_of fl (Name f) of
        None \<Rightarrow> Inl NilDereference
      | Some fh \<Rightarrow>
          spill e fs
            (AList.update (Name f) (encode_trimmed e (fh @ '','') ''['' '']'' (Value f)) fl))"

text \<open>
  Lines 124-155, one record of the stream. \<open>S[0]\<close> is read with no check of \<open>len(S)\<close>:
  a record whose repeated fields are all nil panics there.
\<close>

definition merge_part ::
  "env \<Rightarrow> (string \<rightharpoonup> bool) \<Rightarrow> string \<Rightarrow> mstate \<Rightarrow> gval \<Rightarrow> panic + mstate" where
  "merge_part e names first_name st part =
     (case sliceFields part of
        Inl p \<Rightarrow> Inl p
      | Inr (S, nS) \<Rightarrow>
          (let st1 = (case check_names names S nS of
                        None \<Rightarrow> st
                      | Some n \<Rightarrow> st\<lparr>logged := logged st @ [LogNewField n]\<rparr>)
           in case S of
                [] \<Rightarrow> Inl IndexOutOfRange
              | f # S' \<Rightarrow>
                  (let st2 = (if Name f = first_name
                              then st1\<lparr>out :=
                                     encode_trimmed e (out st1 @ '','') ''['' '']'' (Value f)\<rparr>
                              else st1);
                       S2 = (if Name f = first_name then S' else S)
                   in case spill e S2 (files st2) of
                        Inl p \<Rightarrow> Inl p
                      | Inr fl \<Rightarrow> Inr (st2\<lparr>files := fl\<rparr>))))"

text \<open>Lines 115-156: records are received until \<open>Recv\<close> returns an error.\<close>

fun stream_loop ::
  "env \<Rightarrow> (string \<rightharpoonup> bool) \<Rightarrow> string \<Rightarrow> mstate \<Rightarrow> (recv_error + gval) list \<Rightarrow> panic + mstate" where
  "stream_loop e names n0 st [] = Inr (st\<lparr>source := []\<rparr>)"
| "stream_loop e names n0 st (Inl EOF # rest) = Inr (st\<lparr>source := rest\<rparr>)"
| "stream_loop e names n0 st (Inl (RecvError m) # rest) =
     Inr (st\<lparr>logged := logged st @ [LogRecv m], source := rest\<rparr>)"
| "stream_loop e names n0 st (Inr part # rest) =
     (case merge_part e names n0 st part of
        Inl p \<Rightarrow> Inl p
      | Inr st' \<Rightarrow> stream_loop e names n0 st' rest)"

text \<open>
  Lines 159-167, one key of \<open>range files\<close>: a failing \<open>Seek\<close> is logged and the file is
  skipped; otherwise a comma, the file's contents and \<open>]\<close> are written.
\<close>

definition copy_back :: "env \<Rightarrow> mstate \<Rightarrow> string \<Rightarrow> mstate" where
  "copy_back e st k =
     (case map_of (files st) k of
        None \<Rightarrow> st
      | Some fh \<Rightarrow>
          if \<not> seek_ok e k then st\<lparr>logged := logged st @ [LogSeek k]\<rparr>
          else st\<lparr>out := out st @ '','' @ fh @ '']''\<rparr>)"

text \<open>Lines 157-168: the list of the first repeated field is closed, the files are copied
  back, and the document is closed.\<close>

definition finalize :: "env \<Rightarrow> mstate \<Rightarrow> mstate" where
  "finalize e st =
     (let st1 = st\<lparr>out := out st @ '']''\<rparr>;
          st2 = foldl (copy_back e) st1 (range_files e (map fst (files st1)))
      in st2\<lparr>out := out st2 @ ''}\<newline>''\<rparr>)"

text \<open>
  Lines 45-64, a first record with no repeated field: every record is encoded to \<open>w\<close> as
  it is, until the encoder or \<open>Recv\<close> returns an error.
\<close>

fun passthrough :: "env \<Rightarrow> mstate \<Rightarrow> gval \<Rightarrow> (recv_error + gval) list \<Rightarrow> mstate" where
  "passthrough e st part src =
     (let st1 = st\<lparr>out := out st @ concat (enc_writes e part)\<rparr>
      in case enc_error e part of
           Some m \<Rightarrow> st1\<lparr>logged := logged st1 @ [LogEncode part m], source := src\<rparr>
         | None \<Rightarrow>
             (case src of
                [] \<Rightarrow> st1\<lparr>source := []\<rparr>
              | Inl EOF # rest \<Rightarrow> st1\<lparr>source := rest\<rparr>
              | Inl (RecvError m) # rest \<Rightarrow>
                  st1\<lparr>logged := logged st1 @ [LogRecv m], source := rest\<rparr>
              | Inr next_part # rest \<Rightarrow> passthrough e st1 next_part rest))"

text \<open>
  \<open>mergeStreams\<close>, lines 35-169. The result is the panic that ends the call, or the state
  when it returns.
\<close>

definition mergeStreams :: "env \<Rightarrow> gval \<Rightarrow> (recv_error + gval) list \<Rightarrow> panic + mstate" where
  "mergeStreams e first src =
     (case sliceFields first of
        Inl p \<Rightarrow> Inl p
      | Inr (slice, notSlice) \<Rightarrow>
          (case slice of
             [] \<Rightarrow>
               Inr (passthrough e \<lparr>out = [], files = [], logged = [], source = src\<rparr>
                      first src)
           | f0 # others \<Rightarrow>
               (case begin_merge e f0 others notSlice of
                  Returned (st, names) \<Rightarrow> Inr (st\<lparr>source := src\<rparr>)
                | Next (st, names) \<Rightarrow>
                    (case stream_loop e names (Name f0) st src of
                       Inl p \<Rightarrow> Inl p
                     | Inr st' \<Rightarrow> Inr (finalize e st')))))"

section \<open>A sample encoder\<close>

text \<open>
  A compact JSON rendering, one \<open>Write\<close> call for each value and no trailing newline,
  used to run the model on concrete records.
\<close>

fun commas :: "string list \<Rightarrow> string" where
  "commas [] = []"
| "commas [x] = x"
| "commas (x # y # ys) = x @ '','' @ commas (y # ys)"

fun digits :: "nat \<Rightarrow> string" where
  "digits n = (if n < 10 then [''0123456789'' ! n]
               else digits (n div 10) @ [''0123456789'' ! (n mod 10)])"

definition quoted :: "string \<Rightarrow> string" where
  "quoted s = [CHR 0x22] @ s @ [CHR 0x22]"

fun compact :: "gval \<Rightarrow> string" where
  "compact (GBool b) = (if b then ''true'' else ''false'')"
| "compact (GInt i) = (if i < 0 then ''-'' @ digits (nat (- i)) else digits (nat i))"
| "compact (GString s) = quoted s"
| "compact GNilSlice = ''null''"
| "compact (GSlice xs) = ''['' @ commas (map compact xs) @ '']''"
| "compact (GStruct fs) =
     ''{'' @ commas (map (\<lambda>f. quoted (jsonName (fst f) (fst (snd f))) @ '':'' @ compact (snd (snd f))) fs) @ ''}''"
| "compact GNilPtr = ''null''"
| "compact (GPtr v) = compact v"

definition sample_env :: env where
  "sample_env =
     \<lparr>enc_writes = (\<lambda>v. [compact v]), enc_error = (\<lambda>v. None),
      temp_file = (\<lambda>n. True), seek_ok = (\<lambda>n. True), range_files = (\<lambda>ks. ks)\<rparr>"

text \<open>
  The same rendering with a newline after every value, the decoration that the trim
  writers of lines 71, 75, 82 and 102 cut off: \<open>Encode\<close> writes the value followed by
  a newline, in one \<open>Write\<close> call.
\<close>

definition newline_env :: env where
  "newline_env =
     \<lparr>enc_writes = (\<lambda>v. [compact v @ ''\<newline>'']), enc_error = (\<lambda>v. None),
      temp_file = (\<lambda>n. True), seek_ok = (\<lambda>n. True), range_files = (\<lambda>ks. ks)\<rparr>"

section \<open>Dial options (DialOpts)\<close>

text \<open>
  \<open>DialConfig\<close> with its fields; \<open>Log\<close> and \<open>Tracer\<close> are \<open>None\<close> when nil. The dial
  options are the calls of the gRPC library that build them. \<open>NewInsecureBasicAuth\<close> and
  \<open>NewBasicAuth\<close> build the two kinds of basic-auth credentials from the user name and
  the password. \<open>credentials.NewClientTLSFromFile\<close> is the parameter \<open>load\<close>: it returns
  an error or the transport credentials.
\<close>

record ('l, 't) DialConfig =
  PathPrefix :: string
  CAFile :: string
  ServerHostOverride :: string
  Username :: string
  Password :: string
  Log :: "'l option"
  AllowInsecurePasswordTransport :: bool
  Tracer :: "'t option"

datatype basic_auth = NewInsecureBasicAuth string string | NewBasicAuth string string

datatype ('l, 't) tracer = ConfTracer 't | LogTracer "'l option"

datatype ('l, 't, 'c) DialOption =
    WithCompressor
  | WithDecompressor
  | WithChainStreamInterceptor string "'l option" "('l, 't) tracer"
  | WithChainUnaryInterceptor string "'l option" "('l, 't) tracer"
  | WithPerRPCCredentials basic_auth
  | WithInsecure
  | WithTransportCredentials 'c

text \<open>
  \<open>DialOpts\<close>, lines 62-113: the options and the error, both as returned. With a CA file
  that cannot be loaded the options built so far are returned beside the error.
\<close>

definition DialOpts ::
  "(string \<Rightarrow> string \<Rightarrow> 'e + 'c) \<Rightarrow> ('l, 't) DialConfig
   \<Rightarrow> ('l, 't, 'c) DialOption list \<times> (string \<times> string \<times> 'e) option" where
  "DialOpts load conf =
     (let d1 = [WithCompressor, WithDecompressor];
          tr = (case Tracer conf of None \<Rightarrow> LogTracer (Log conf) | Some t \<Rightarrow> ConfTracer t);
          d2 = (if PathPrefix conf \<noteq> [] \<or> Log conf \<noteq> None
                then d1 @ [WithChainStreamInterceptor (PathPrefix conf) (Log conf) tr,
                           WithChainUnaryInterceptor (PathPrefix conf) (Log conf) tr]
                else d1)
      in if CAFile conf = []
         then ((if AllowInsecurePasswordTransport conf
                then d2 @ [WithPerRPCCredentials
                             (NewInsecureBasicAuth (Username conf) (Password conf))]
                else d2) @ [WithInsecure], None)
         else (let d3 = d2 @ [WithPerRPCCredentials
                                (NewBasicAuth (Username conf) (Password conf))]
               in case load (CAFile conf) (ServerHostOverride conf) of
                    Inl err \<Rightarrow> (d3, Some (CAFile conf, ServerHostOverride conf, err))
                  | Inr creds \<Rightarrow> (d3 @ [WithTransportCredentials creds], None)))"

fun isPerRPCCredentials :: "('l, 't, 'c) DialOption \<Rightarrow> bool" where
  "isPerRPCCredentials (WithPerRPCCredentials ba) = True"
| "isPerRPCCredentials opt = False"

fun isTransportCredentials :: "('l, 't, 'c) DialOption \<Rightarrow> bool" where
  "isTransportCredentials (WithTransportCredentials creds) = True"
| "isTransportCredentials opt = False"

section \<open>Notions used in the statements\<close>

text \<open>
  What finalization writes for one key of \<open>files\<close> and for all of them, in the order of
  \<open>range_files\<close>.
\<close>

definition copy_text :: "env \<Rightarrow> (string \<times> string) list \<Rightarrow> string \<Rightarrow> string" where
  "copy_text e fl k =
     (case map_of fl k of
        None \<Rightarrow> []
      | Some fh \<Rightarrow> if seek_ok e k then '','' @ fh @ '']'' else [])"

definition spill_text :: "env \<Rightarrow> (string \<times> string) list \<Rightarrow> string" where
  "spill_text e fl = concat (map (copy_text e fl) (range_files e (map fst fl)))"

definition trimmed :: "env \<Rightarrow> string \<Rightarrow> string \<Rightarrow> gval \<Rightarrow> string" where
  "trimmed e pre suf v = encode_trimmed e [] pre suf v"

definition first_text :: "env \<Rightarrow> string \<Rightarrow> field \<Rightarrow> string" where
  "first_text e n f = (if Name f = n then '','' @ trimmed e ''['' '']'' (Value f) else [])"

definition new_field_log :: "(string \<rightharpoonup> bool) \<Rightarrow> field list \<Rightarrow> field list \<Rightarrow> log_event list" where
  "new_field_log nm S nS = (case check_names nm S nS of None \<Rightarrow> [] | Some x \<Rightarrow> [LogNewField x])"

definition scalars_text :: "env \<Rightarrow> field list \<Rightarrow> string" where
  "scalars_text e notSlice =
     concat (map (\<lambda>f. trimmed e [] ''\<newline>'' (GString (JSONName f)) @ '':''
                       @ trimmed e [] ''\<newline>'' (Value f) @ '','') notSlice)"

definition begin_text :: "env \<Rightarrow> field \<Rightarrow> field list \<Rightarrow> string" where
  "begin_text e lead notSlice =
     ''{'' @ scalars_text e notSlice @ trimmed e [] ''\<newline>'' (GString (JSONName lead))
       @ '':'' @ trimmed e [] '']'' (Value lead)"

definition file_text :: "string \<times> string \<Rightarrow> string" where
  "file_text kf = '','' @ snd kf @ '']''"

text \<open>
  Two records of the same type that agree on their repeated fields and may differ in
  the values of their scalar fields; two sources that differ in this way only; two results
  that differ at most in such records left in the source.
\<close>

definition field_variant :: "string \<times> string \<times> gval \<Rightarrow> string \<times> string \<times> gval \<Rightarrow> bool" where
  "field_variant f g =
     (fst g = fst f \<and> fst (snd g) = fst (snd f)
      \<and> (if isSliceKind (snd (snd f)) then snd (snd g) = snd (snd f)
          else \<not> isSliceKind (snd (snd g))))"

fun record_variant :: "gval \<Rightarrow> gval \<Rightarrow> bool" where
  "record_variant (GStruct fs) (GStruct gs) = list_all2 field_variant fs gs"
| "record_variant (GPtr (GStruct fs)) (GPtr (GStruct gs)) = list_all2 field_variant fs gs"
| "record_variant v w = (v = w)"

definition source_variant :: "(recv_error + gval) list \<Rightarrow> (recv_error + gval) list \<Rightarrow> bool" where
  "source_variant src src' = list_all2 (rel_sum (=) record_variant) src src'"

definition same_result :: "panic + mstate \<Rightarrow> panic + mstate \<Rightarrow> bool" where
  "same_result x y =
     rel_sum (=) (\<lambda>s t. out t = out s \<and> files t = files s \<and> logged t = logged s
                        \<and> source_variant (source s) (source t)) x y"

text \<open>
  The records a source delivers before its first error, and what the loop writes to the
  output for one of them: the elements of its first repeated field, when that is the
  first repeated field of the first record.
\<close>

fun received :: "(recv_error + gval) list \<Rightarrow> gval list" where
  "received [] = []"
| "received (Inl err # rest) = []"
| "received (Inr r # rest) = r # received rest"

definition part_text :: "env \<Rightarrow> string \<Rightarrow> gval \<Rightarrow> string" where
  "part_text e n r =
     (case sliceFields r of
        Inr (f # S', nS) \<Rightarrow> first_text e n f
      | _ \<Rightarrow> [])"

text \<open>
  Records of the schema with a scalar field \<open>A\<close> and repeated fields \<open>B\<close> and \<open>C\<close>,
  each given by its name and its tag. A record is built from the value of \<open>A\<close> and the
  elements of \<open>B\<close> and of \<open>C\<close>; a field with no elements is a nil slice. \<open>key_text\<close> is
  an external name as written, \<open>more_text\<close> what a later record adds to a list: nothing
  for no elements, else a comma and the encoded list as the trim writer with prefix \<open>[\<close>
  and suffix \<open>]\<close> passes it on.
\<close>

definition slice_of :: "gval list \<Rightarrow> gval" where
  "slice_of xs = (if xs = [] then GNilSlice else GSlice xs)"

definition abc_record ::
  "string \<times> string \<Rightarrow> string \<times> string \<Rightarrow> string \<times> string
   \<Rightarrow> gval \<times> gval list \<times> gval list \<Rightarrow> gval" where
  "abc_record A B C r =
     GStruct [(fst A, snd A, fst r),
              (fst B, snd B, slice_of (fst (snd r))),
              (fst C, snd C, slice_of (snd (snd r)))]"

definition key_text :: "env \<Rightarrow> string \<times> string \<Rightarrow> string" where
  "key_text e A = trimmed e [] ''\<newline>'' (GString (jsonName (fst A) (snd A)))"

definition abc_field :: "string \<times> string \<Rightarrow> gval \<Rightarrow> field" where
  "abc_field A v = \<lparr>Name = fst A, JSONName = jsonName (fst A) (snd A), Value = v\<rparr>"

definition more_text :: "env \<Rightarrow> gval list \<Rightarrow> string" where
  "more_text e xs = (if xs = [] then [] else '','' @ trimmed e ''['' '']'' (GSlice xs))"

section \<open>Properties of the trim writer\<close>

lemmas tw_defs = newTrimWriter_def flush_buf_def hold_back_def Write_def Close_def

lemma hold_back_all:
  "tw_buf tw = [] \<Longrightarrow> tw_w (hold_back tw q) @ tw_buf (hold_back tw q) = tw_w tw @ q"
  by (simp add: hold_back_def Let_def)

text \<open>
  Claim C3. With prefix \<open>[\<close> and suffix \<open>]\<close>: writing \<open>[1,2,3]\<close> and closing emits
  \<open>1,2,3\<close>; writing only \<open>]\<close> and closing emits nothing; writing \<open>[1\<close> and then \<open>]\<close>
  in a second call and closing emits \<open>1\<close>.
\<close>

theorem trimWriter_round_trip:
  "Close (Write (newTrimWriter [] ''['' '']'') ''[1,2,3]'') = ''1,2,3''
   \<and> Close (Write (newTrimWriter [] ''['' '']'') '']'') = []
   \<and> Close (Write (Write (newTrimWriter [] ''['' '']'') ''[1'') '']'') = ''1''"
  by (simp add: tw_defs)

text \<open>
  Claim C5, as stated, fails: a \<open>Write\<close> whose bytes do not begin with the prefix loses
  its first byte all the same. Here the prefix is \<open>[\<close> and the bytes are \<open>1,2]\<close>.
\<close>

theorem Write_drops_unmatched_bytes:
  "\<not> hasPrefix ''1,2]'' ''[''
   \<and> Close (Write (newTrimWriter [] ''['' '']'') ''1,2]'') = '',2''"
  by (simp add: tw_defs hasPrefix_def)

text \<open>
  Claim C5, amended. A \<open>Write\<close> to a trim writer with an empty buffer cuts the first
  \<open>len(prefix)\<close> bytes off the incoming bytes whatever they are, and passes the rest on
  unchanged (to the destination or to the suffix buffer); of a prefix longer than the
  incoming bytes, the part beyond their length is kept for the next call.
\<close>

theorem Write_cuts_prefix_length:
  assumes "tw_buf tw = []"
  shows "tw_w (Write tw p) @ tw_buf (Write tw p) = tw_w tw @ drop (length (tw_prefix tw)) p
         \<and> tw_prefix (Write tw p) = drop (length p) (tw_prefix tw)"
proof -
  have fl: "flush_buf tw = tw" "flush_buf (tw\<lparr>tw_prefix := []\<rparr>) = tw\<lparr>tw_prefix := []\<rparr>"
    using assms by (simp_all add: flush_buf_def)
  have pre: "tw_prefix (hold_back t q) = tw_prefix t" for t q
    by (simp add: hold_back_def Let_def)
  show ?thesis
  proof (cases "tw_prefix tw \<noteq> [] \<and> length p \<le> length (tw_prefix tw)")
    case True
    then show ?thesis using assms by (simp add: Write_def)
  next
    case False
    then have W: "Write tw p = hold_back (tw\<lparr>tw_prefix := []\<rparr>) (drop (length (tw_prefix tw)) p)"
    proof (cases "tw_prefix tw = []")
      case True
      then have eq: "tw\<lparr>tw_prefix := []\<rparr> = tw" by (cases tw) simp
      show ?thesis unfolding eq using True fl(1) by (simp add: Write_def)
    next
      case nonempty: False
      with False fl show ?thesis by (simp add: Write_def)
    qed
    have "tw_buf (tw\<lparr>tw_prefix := []\<rparr>) = []" using assms by simp
    from hold_back_all [OF this] False show ?thesis
      unfolding W by (auto simp: pre)
  qed
qed

theorem Write_cuts_prefix_length_witness:
  "tw_buf (newTrimWriter ''x'' ''['' '']'') = []
   \<and> tw_w (Write (newTrimWriter ''x'' ''['' '']'') ''1,2]'')
       @ tw_buf (Write (newTrimWriter ''x'' ''['' '']'') ''1,2]'') = ''x,2]''
   \<and> tw_prefix (Write (newTrimWriter ''x'' ''['' '']'') ''1,2]'') = []"
  using Write_cuts_prefix_length [of "newTrimWriter ''x'' ''['' '']''" "''1,2]''"]
  by (simp add: newTrimWriter_def)

text \<open>The destination of a trim writer only grows: what it holds at the start stays in front.\<close>

lemma flush_buf_dst:
  "flush_buf (tw\<lparr>tw_w := d @ tw_w tw\<rparr>) = (flush_buf tw)\<lparr>tw_w := d @ tw_w (flush_buf tw)\<rparr>"
  by (simp add: flush_buf_def)

lemma hold_back_dst:
  "hold_back (tw\<lparr>tw_w := d @ tw_w tw\<rparr>) p = (hold_back tw p)\<lparr>tw_w := d @ tw_w (hold_back tw p)\<rparr>"
  by (simp add: hold_back_def Let_def)

lemma Write_dst:
  "Write (tw\<lparr>tw_w := d @ tw_w tw\<rparr>) p = (Write tw p)\<lparr>tw_w := d @ tw_w (Write tw p)\<rparr>"
  by (cases tw) (simp add: Write_def flush_buf_def hold_back_def Let_def)

lemma foldl_Write_dst:
  "foldl Write (tw\<lparr>tw_w := d @ tw_w tw\<rparr>) cs
   = (foldl Write tw cs)\<lparr>tw_w := d @ tw_w (foldl Write tw cs)\<rparr>"
proof (induction cs arbitrary: tw)
  case Nil
  show ?case by simp
next
  case (Cons c cs)
  show ?case by (simp only: foldl_Cons Write_dst Cons.IH)
qed

lemma encode_trimmed_dst:
  "encode_trimmed e d pre suf v = d @ encode_trimmed e [] pre suf v"
proof -
  have "newTrimWriter d pre suf
        = (newTrimWriter [] pre suf)\<lparr>tw_w := d @ tw_w (newTrimWriter [] pre suf)\<rparr>"
    by (simp add: newTrimWriter_def)
  then show ?thesis
    by (simp add: encode_trimmed_def Encode_def foldl_Write_dst Close_def)
qed

section \<open>Properties of the stream merger\<close>

text \<open>
  Claim C4. A later record whose repeated fields are all nil makes \<open>mergeStreams\<close> panic:
  \<open>sliceFields\<close> returns no repeated field for it and line 140 reads \<open>S[0]\<close>. This holds
  for every encoder, file system and rest of the stream.
\<close>

theorem mergeStreams_panics_on_all_nil:
  "mergeStreams e
     (GStruct [(''A'', ''a'', GInt 1), (''B'', ''b'', GSlice [GInt 1])])
     (Inr (GStruct [(''A'', ''a'', GInt 1), (''B'', ''b'', GNilSlice)]) # rest)
   = Inl IndexOutOfRange"
  by (simp add: mergeStreams_def sliceFields_def begin_merge_def merge_part_def Let_def)

subsection \<open>Finalization and the loop\<close>

lemma copy_back_fields:
  "files (copy_back e st k) = files st" "source (copy_back e st k) = source st"
  "out (copy_back e st k) = out st @ copy_text e (files st) k"
  by (simp_all add: copy_back_def copy_text_def split: option.splits)

lemma foldl_copy_back:
  "files (foldl (copy_back e) st ks) = files st
   \<and> source (foldl (copy_back e) st ks) = source st
   \<and> out (foldl (copy_back e) st ks) = out st @ concat (map (copy_text e (files st)) ks)"
  by (induction ks arbitrary: st) (simp_all add: copy_back_fields)

lemma logged_copy_back: "\<exists>l. logged (copy_back e st k) = logged st @ l"
  by (simp add: copy_back_def split: option.splits)

lemma logged_foldl_copy_back: "\<exists>l. logged (foldl (copy_back e) st ks) = logged st @ l"
proof (induction ks arbitrary: st)
  case Nil
  show ?case by simp
next
  case (Cons k ks)
  obtain l1 where l1: "logged (copy_back e st k) = logged st @ l1"
    using logged_copy_back by blast
  obtain l2 where "logged (foldl (copy_back e) (copy_back e st k) ks) = logged (copy_back e st k) @ l2"
    using Cons.IH by blast
  with l1 show ?case by simp
qed

lemma finalize_fields:
  "out (finalize e st) = out st @ '']'' @ spill_text e (files st) @ ''}\<newline>''"
  "files (finalize e st) = files st"
  "source (finalize e st) = source st"
  by (simp_all add: finalize_def Let_def foldl_copy_back spill_text_def)

lemma finalize_logged: "\<exists>l. logged (finalize e st) = logged st @ l"
proof -
  obtain l where "logged (foldl (copy_back e) (st\<lparr>out := out st @ '']''\<rparr>)
                    (range_files e (map fst (files st)))) = logged st @ l"
    using logged_foldl_copy_back [of e "st\<lparr>out := out st @ '']''\<rparr>"] by auto
  then show ?thesis by (simp add: finalize_def Let_def)
qed

lemma merge_part_source:
  "merge_part e nm n0 (st\<lparr>source := x\<rparr>) r
   = map_sum id (\<lambda>s. s\<lparr>source := x\<rparr>) (merge_part e nm n0 st r)"
  by (simp add: merge_part_def Let_def split: sum.splits prod.splits option.splits list.splits)

lemma stream_loop_source:
  "stream_loop e nm n0 (st\<lparr>source := x\<rparr>) src = stream_loop e nm n0 st src"
proof (induction e nm n0 st src arbitrary: x rule: stream_loop.induct)
  case (4 e names n0 st part rest)
  show ?case
  proof (cases "merge_part e names n0 st part")
    case (Inl p)
    then show ?thesis by (simp add: merge_part_source)
  next
    case (Inr st')
    then show ?thesis using 4 [OF Inr] by (simp add: merge_part_source)
  qed
qed simp_all

lemma stream_loop_append:
  assumes "stream_loop e nm n0 st (map Inr recs) = Inr st2"
  shows "stream_loop e nm n0 st (map Inr recs @ tl0) = stream_loop e nm n0 st2 tl0"
  using assms
proof (induction recs arbitrary: st)
  case Nil
  then have "st2 = st\<lparr>source := []\<rparr>" by simp
  then show ?case by (simp add: stream_loop_source)
next
  case (Cons r recs)
  then show ?case by (cases "merge_part e nm n0 st r") simp_all
qed

text \<open>
  Claim C8. In a merge (the first record has a repeated field and the temporary files
  were opened), when the records before a read failure were processed, the call returns:
  nothing after the failure is received, the error is logged, and the output is what
  was written so far followed by the close of the first list, the contents of the files
  and the closing brace.
\<close>

theorem read_failure_is_finalized:
  assumes first: "sliceFields first = Inr (lead # others, notSlice)"
      and start: "begin_merge e lead others notSlice = Next (sta, names)"
      and loop: "stream_loop e names (Name lead) sta (map Inr recs) = Inr stb"
  shows "\<exists>st. mergeStreams e first (map Inr recs @ Inl (RecvError m) # rest) = Inr st
           \<and> source st = rest
           \<and> LogRecv m \<in> set (logged st)
           \<and> files st = files stb
           \<and> out st = out stb @ '']'' @ spill_text e (files stb) @ ''}\<newline>''"
proof -
  let ?st3 = "stb\<lparr>logged := logged stb @ [LogRecv m], source := rest\<rparr>"
  have "stream_loop e names (Name lead) sta (map Inr recs @ Inl (RecvError m) # rest)
        = Inr ?st3"
    by (simp add: stream_loop_append [OF loop])
  then have run: "mergeStreams e first (map Inr recs @ Inl (RecvError m) # rest)
                  = Inr (finalize e ?st3)"
    by (simp add: mergeStreams_def first start)
  obtain l where "logged (finalize e ?st3) = logged ?st3 @ l"
    using finalize_logged by blast
  then have "LogRecv m \<in> set (logged (finalize e ?st3))" by simp
  with run show ?thesis by (simp add: finalize_fields)
qed

lemmas merge_defs = spill_text_def copy_text_def mergeStreams_def sliceFields_def jsonName_def begin_merge_def write_scalar_def encode_trimmed_def Encode_def sample_env_def tw_defs quoted_def merge_part_def check_names_def finalize_def copy_back_def Let_def

theorem read_failure_is_finalized_witness:
  "map_sum id (\<lambda>st. (out st, source st, logged st ! 1))
     (mergeStreams sample_env 
        (GStruct [(''A'', ''a'', GInt 7), (''B'', '''', GSlice [GInt 1, GInt 2]), (''C'', ''c'', GSlice [GInt 10])])
        [Inr (GStruct [(''A'', ''a'', GInt 8), (''B'', '''', GNilSlice), (''C'', ''c'', GSlice [GInt 11])]),
         Inl (RecvError ''reset''),
         Inr (GStruct [(''A'', ''a'', GInt 9), (''B'', '''', GSlice [GInt 3]), (''C'', ''c'', GNilSlice)])])
   = Inr (''{\"a\":7,\"B\":[1,2],\"c\":[10,11]}\<newline>'',
          [Inr (GStruct [(''A'', ''a'', GInt 9), (''B'', '''', GSlice [GInt 3]), (''C'', ''c'', GNilSlice)])],
          LogRecv ''reset'')"
  using read_failure_is_finalized [where e = sample_env
      and first = "GStruct [(''A'', ''a'', GInt 7), (''B'', '''', GSlice [GInt 1, GInt 2]), (''C'', ''c'', GSlice [GInt 10])]"
      and lead = "\<lparr>Name = ''B'', JSONName = ''B'', Value = GSlice [GInt 1, GInt 2]\<rparr>"
      and others = "[\<lparr>Name = ''C'', JSONName = ''c'', Value = GSlice [GInt 10]\<rparr>]"
      and notSlice = "[\<lparr>Name = ''A'', JSONName = ''a'', Value = GInt 7\<rparr>]"
      and recs = "[GStruct [(''A'', ''a'', GInt 8), (''B'', '''', GNilSlice), (''C'', ''c'', GSlice [GInt 11])]]"
      and m = "''reset''"
      and rest = "[Inr (GStruct [(''A'', ''a'', GInt 9), (''B'', '''', GSlice [GInt 3]), (''C'', ''c'', GNilSlice)])]"
      and sta = "fst (flow_state (begin_merge sample_env \<lparr>Name = ''B'', JSONName = ''B'', Value = GSlice [GInt 1, GInt 2]\<rparr>
                    [\<lparr>Name = ''C'', JSONName = ''c'', Value = GSlice [GInt 10]\<rparr>]
                    [\<lparr>Name = ''A'', JSONName = ''a'', Value = GInt 7\<rparr>]))"
      and names = "snd (flow_state (begin_merge sample_env \<lparr>Name = ''B'', JSONName = ''B'', Value = GSlice [GInt 1, GInt 2]\<rparr>
                    [\<lparr>Name = ''C'', JSONName = ''c'', Value = GSlice [GInt 10]\<rparr>]
                    [\<lparr>Name = ''A'', JSONName = ''a'', Value = GInt 7\<rparr>]))"
      and stb = "projr (stream_loop sample_env
             (snd (flow_state (begin_merge sample_env \<lparr>Name = ''B'', JSONName = ''B'', Value = GSlice [GInt 1, GInt 2]\<rparr>
                    [\<lparr>Name = ''C'', JSONName = ''c'', Value = GSlice [GInt 10]\<rparr>]
                    [\<lparr>Name = ''A'', JSONName = ''a'', Value = GInt 7\<rparr>]))) ''B''
             (fst (flow_state (begin_merge sample_env \<lparr>Name = ''B'', JSONName = ''B'', Value = GSlice [GInt 1, GInt 2]\<rparr>
                    [\<lparr>Name = ''C'', JSONName = ''c'', Value = GSlice [GInt 10]\<rparr>]
                    [\<lparr>Name = ''A'', JSONName = ''a'', Value = GInt 7\<rparr>])))
             [Inr (GStruct [(''A'', ''a'', GInt 8), (''B'', '''', GNilSlice), (''C'', ''c'', GSlice [GInt 11])])])"]
  by (simp add: merge_defs)

lemma encode_trimmed_eq: "encode_trimmed e d pre suf v = d @ trimmed e pre suf v"
  unfolding trimmed_def by (rule encode_trimmed_dst)

lemma merge_part_eq:
  assumes "sliceFields r = Inr (f # S', nS)"
  shows "merge_part e nm n st r =
     (case spill e (if Name f = n then S' else f # S') (files st) of
        Inl p \<Rightarrow> Inl p
      | Inr fl \<Rightarrow> Inr (st\<lparr>out := out st @ first_text e n f,
                          files := fl,
                          logged := logged st @ new_field_log nm (f # S') nS\<rparr>))"
  using assms
  by (simp add: merge_part_def Let_def encode_trimmed_eq first_text_def new_field_log_def
           split: option.splits sum.splits del: spill.simps)

lemma merge_part_no_slices:
  "sliceFields r = Inr ([], nS) \<Longrightarrow> merge_part e nm n st r = Inl IndexOutOfRange"
  by (simp add: merge_part_def Let_def)

lemma merge_part_reflect:
  "sliceFields r = Inl p \<Longrightarrow> merge_part e nm n st r = Inl p"
  by (simp add: merge_part_def)

lemma merge_part_InrE:
  assumes "merge_part e nm n st r = Inr st'"
  obtains f S' nS fl where "sliceFields r = Inr (f # S', nS)"
    and "spill e (if Name f = n then S' else f # S') (files st) = Inr fl"
    and "st' = st\<lparr>out := out st @ first_text e n f, files := fl,
                    logged := logged st @ new_field_log nm (f # S') nS\<rparr>"
proof (cases "sliceFields r")
  case (Inl p)
  with assms show ?thesis by (simp add: merge_part_reflect)
next
  case (Inr pr)
  obtain S nS where pr: "pr = (S, nS)" by (cases pr)
  show ?thesis
  proof (cases S)
    case Nil
    with Inr pr assms show ?thesis by (simp add: merge_part_no_slices)
  next
    case (Cons f S')
    with Inr pr have sf: "sliceFields r = Inr (f # S', nS)" by simp
    show ?thesis
    proof (cases "spill e (if Name f = n then S' else f # S') (files st)")
      case (Inl p)
      with assms show ?thesis unfolding merge_part_eq [OF sf] by simp
    next
      case sp: (Inr fl)
      with assms have "st' = st\<lparr>out := out st @ first_text e n f, files := fl,
                    logged := logged st @ new_field_log nm (f # S') nS\<rparr>"
        unfolding merge_part_eq [OF sf] by simp
      with sf sp show ?thesis by (rule that)
    qed
  qed
qed

lemma write_scalars_out:
  "fst (foldl (write_scalar e) (d, nm) ns) = d @ scalars_text e ns"
proof (induction ns arbitrary: d nm)
  case Nil
  show ?case by (simp add: scalars_text_def)
next
  case (Cons f ns)
  have "write_scalar e (d, nm) f
        = (d @ trimmed e [] ''\<newline>'' (GString (JSONName f)) @ '':''
             @ trimmed e [] ''\<newline>'' (Value f) @ '','', nm(Name f \<mapsto> False))"
    by (simp add: write_scalar_def Let_def encode_trimmed_eq)
  then show ?case using Cons.IH by (simp add: scalars_text_def)
qed

lemma open_files_Next:
  "open_files e fs st nm = Next (st', nm')
   \<Longrightarrow> out st' = out st \<and> logged st' = logged st \<and> source st' = source st"
proof (induction fs arbitrary: st nm)
  case Nil
  then show ?case by simp
next
  case (Cons f fs)
  from Cons.prems have ok: "temp_file e (Name f)" by (auto split: if_splits)
  with Cons.prems Cons.IH show ?case by (fastforce simp: Let_def)
qed

lemma open_files_Returned:
  "open_files e fs st nm = Returned (st', nm') \<Longrightarrow> out st' = out st"
proof (induction fs arbitrary: st nm)
  case Nil
  then show ?case by simp
next
  case (Cons f fs)
  show ?case
  proof (cases "temp_file e (Name f)")
    case True
    with Cons.prems Cons.IH show ?thesis by (fastforce simp: Let_def)
  next
    case False
    with Cons.prems show ?thesis by auto
  qed
qed

lemma begin_merge_out:
  "begin_merge e lead others notSlice = Next (st, nm) \<Longrightarrow> out st = begin_text e lead notSlice"
  "begin_merge e lead others notSlice = Returned (st, nm) \<Longrightarrow> out st = begin_text e lead notSlice"
  unfolding begin_merge_def Let_def
  by (auto dest!: open_files_Next open_files_Returned
           simp: begin_text_def encode_trimmed_eq write_scalars_out)

lemma update_present_keys:
  "map_of fl k = Some v \<Longrightarrow> map fst (AList.update k w fl) = map fst fl"
  by (induction fl) (auto split: if_splits)

lemma spill_keys:
  "spill e S fl = Inr fl' \<Longrightarrow> map fst fl' = map fst fl"
proof (induction S arbitrary: fl)
  case Nil
  then show ?case by simp
next
  case (Cons f S)
  then obtain fh where fh: "map_of fl (Name f) = Some fh"
    by (auto split: option.splits)
  with Cons show ?case by (simp add: update_present_keys)
qed

lemma merge_part_keys:
  assumes "merge_part e nm n st r = Inr st'"
  shows "map fst (files st') = map fst (files st)"
  using assms by (elim merge_part_InrE) (simp add: spill_keys)

lemma stream_loop_keys:
  "stream_loop e nm n st src = Inr st' \<Longrightarrow> map fst (files st') = map fst (files st)"
proof (induction e nm n st src rule: stream_loop.induct)
  case (4 e names n0 st part rest)
  then show ?case
    by (cases "merge_part e names n0 st part") (auto dest: merge_part_keys)
qed auto

lemma open_files_distinct:
  assumes "open_files e fs st nm = Next (st', nm')" "distinct (map fst (files st))"
  shows "distinct (map fst (files st'))"
  using assms
proof (induction fs arbitrary: st nm)
  case Nil
  then show ?case by simp
next
  case (Cons f fs)
  from Cons.prems(1) have ok: "temp_file e (Name f)"
    by (auto split: if_splits)
  show ?case
    using Cons.prems ok
    by (auto simp: Let_def distinct_update intro!: Cons.IH)
qed

lemma begin_merge_distinct:
  "begin_merge e lead others notSlice = Next (st, nm) \<Longrightarrow> distinct (map fst (files st))"
  unfolding begin_merge_def Let_def
  by (erule open_files_distinct) simp

lemma pairs_of_keys:
  "distinct (map fst fl) \<Longrightarrow> map (\<lambda>k. (k, the (map_of fl k))) (map fst fl) = fl"
proof (induction fl)
  case Nil
  show ?case by simp
next
  case (Cons p fl)
  obtain k v where p: "p = (k, v)" by (cases p)
  from Cons.prems p have "k \<notin> fst ` set fl" and d: "distinct (map fst fl)" by auto
  then have "\<forall>x \<in> set (map fst fl). x \<noteq> k" by auto
  then have "map (\<lambda>x. (x, the (map_of ((k, v) # fl) x))) (map fst fl)
             = map (\<lambda>x. (x, the (map_of fl x))) (map fst fl)"
    by (intro map_cong) auto
  with Cons.IH [OF d] p show ?case by simp
qed

lemma copy_text_present:
  assumes "k \<in> fst ` set fl" "seek_ok e k"
  shows "copy_text e fl k = file_text (k, the (map_of fl k))"
proof -
  from assms(1) obtain fh where "map_of fl k = Some fh"
    by (metis map_of_eq_None_iff not_None_eq)
  with assms(2) show ?thesis by (simp add: copy_text_def file_text_def)
qed

lemma spill_text_permutation:
  assumes perm: "mset (range_files e (map fst fl)) = mset (map fst fl)"
      and seek: "list_all (seek_ok e) (map fst fl)"
      and dist: "distinct (map fst fl)"
  shows "\<exists>fs. mset fs = mset fl \<and> map fst fs = range_files e (map fst fl)
              \<and> spill_text e fl = concat (map file_text fs)"
proof -
  let ?ks = "range_files e (map fst fl)"
  let ?g = "\<lambda>k. (k, the (map_of fl k))"
  have set_eq: "set ?ks = set (map fst fl)" using perm by (rule mset_eq_setD)
  have "mset (map ?g ?ks) = mset (map ?g (map fst fl))"
    using perm by (metis mset_map)
  then have m: "mset (map ?g ?ks) = mset fl" by (simp only: pairs_of_keys [OF dist])
  have k: "map fst (map ?g ?ks) = ?ks" by (simp add: comp_def)
  have "map (copy_text e fl) ?ks = map (file_text \<circ> ?g) ?ks"
  proof (rule map_cong [OF refl])
    fix k assume "k \<in> set ?ks"
    with set_eq have kin: "k \<in> fst ` set fl" by simp
    with seek have "seek_ok e k" by (auto simp: list_all_iff)
    with kin show "copy_text e fl k = (file_text \<circ> ?g) k"
      by (simp add: copy_text_present)
  qed
  then have "spill_text e fl = concat (map file_text (map ?g ?ks))"
    unfolding spill_text_def by (simp only: map_map)
  with m k show ?thesis by blast
qed

text \<open>
  Claim C9, amended. In a merge that reaches finalization, when \<open>range files\<close> yields
  every key once and every \<open>Seek\<close> succeeds, the output is what the loop wrote, the
  close of the first list, then each file once as a comma, its contents and \<open>]\<close>, and
  the closing brace. The files come in the order in which \<open>range files\<close> yields their
  keys, which the program does not fix.
\<close>

theorem files_copied_in_range_order:
  assumes first: "sliceFields first = Inr (lead # others, notSlice)"
      and start: "begin_merge e lead others notSlice = Next (sta, names)"
      and loop: "stream_loop e names (Name lead) sta src = Inr stb"
      and perm: "mset (range_files e (map fst (files stb))) = mset (map fst (files stb))"
      and seek: "list_all (seek_ok e) (map fst (files stb))"
  shows "\<exists>fs. mset fs = mset (files stb)
            \<and> map fst fs = range_files e (map fst (files stb))
            \<and> map_sum id out (mergeStreams e first src)
                = Inr (out stb @ '']'' @ concat (map file_text fs) @ ''}\<newline>'')"
proof -
  have "distinct (map fst (files sta))" using start by (rule begin_merge_distinct)
  then have "distinct (map fst (files stb))" using stream_loop_keys [OF loop] by simp
  from spill_text_permutation [OF perm seek this] obtain fs where
    fs: "mset fs = mset (files stb)" "map fst fs = range_files e (map fst (files stb))"
        "spill_text e (files stb) = concat (map file_text fs)"
    by blast
  have "mergeStreams e first src = Inr (finalize e stb)"
    by (simp add: mergeStreams_def first start loop)
  then have "map_sum id out (mergeStreams e first src)
             = Inr (out stb @ '']'' @ concat (map file_text fs) @ ''}\<newline>'')"
    by (simp add: finalize_fields fs(3))
  with fs(1,2) show ?thesis by blast
qed

text \<open>
  Claim C9, as stated, fails: the files are visited in the order of \<open>range files\<close>.
  With three repeated fields and an iteration that yields \<open>D\<close> before \<open>C\<close>, the field
  created later comes first in the document; with the other order it comes second. The
  same input gives two different documents.
\<close>

theorem files_order_follows_range:
  "map_sum id out
     (mergeStreams (sample_env\<lparr>range_files := rev\<rparr>)
        (GStruct [(''B'', ''b'', GSlice [GInt 1]), (''C'', ''c'', GSlice [GInt 2]),
                  (''D'', ''d'', GSlice [GInt 3])])
        [])
   = Inr ''{\"b\":[1],\"d\":[3],\"c\":[2]}\<newline>''
   \<and> map_sum id out
     (mergeStreams sample_env
        (GStruct [(''B'', ''b'', GSlice [GInt 1]), (''C'', ''c'', GSlice [GInt 2]),
                  (''D'', ''d'', GSlice [GInt 3])])
        [])
   = Inr ''{\"b\":[1],\"c\":[2],\"d\":[3]}\<newline>''"
  by (simp add: merge_defs)

theorem files_copied_in_range_order_witness:
  "mset (range_files (sample_env\<lparr>range_files := rev\<rparr>) [''C'', ''D'']) = mset [''C'', ''D'']
   \<and> map_sum id out
     (mergeStreams (sample_env\<lparr>range_files := rev\<rparr>)
        (GStruct [(''B'', ''b'', GSlice [GInt 1]), (''C'', ''c'', GSlice [GInt 2]),
                  (''D'', ''d'', GSlice [GInt 3])])
        [Inr (GStruct [(''B'', ''b'', GNilSlice), (''C'', ''c'', GSlice [GInt 4]),
                  (''D'', ''d'', GSlice [GInt 5])])])
   = Inr ''{\"b\":[1],\"d\":[3,5],\"c\":[2,4]}\<newline>''"
  using files_copied_in_range_order [where e = "sample_env\<lparr>range_files := rev\<rparr>"
      and first = "GStruct [(''B'', ''b'', GSlice [GInt 1]), (''C'', ''c'', GSlice [GInt 2]),
                  (''D'', ''d'', GSlice [GInt 3])]"
      and src = "[Inr (GStruct [(''B'', ''b'', GNilSlice), (''C'', ''c'', GSlice [GInt 4]),
                  (''D'', ''d'', GSlice [GInt 5])])]"
      and lead = "\<lparr>Name = ''B'', JSONName = ''b'', Value = GSlice [GInt 1]\<rparr>"
      and others = "[\<lparr>Name = ''C'', JSONName = ''c'', Value = GSlice [GInt 2]\<rparr>,
                     \<lparr>Name = ''D'', JSONName = ''d'', Value = GSlice [GInt 3]\<rparr>]"
      and notSlice = "[]"
      and sta = "fst (flow_state (begin_merge (sample_env\<lparr>range_files := rev\<rparr>)
                    \<lparr>Name = ''B'', JSONName = ''b'', Value = GSlice [GInt 1]\<rparr>
                    [\<lparr>Name = ''C'', JSONName = ''c'', Value = GSlice [GInt 2]\<rparr>,
                     \<lparr>Name = ''D'', JSONName = ''d'', Value = GSlice [GInt 3]\<rparr>] []))"
      and names = "snd (flow_state (begin_merge (sample_env\<lparr>range_files := rev\<rparr>)
                    \<lparr>Name = ''B'', JSONName = ''b'', Value = GSlice [GInt 1]\<rparr>
                    [\<lparr>Name = ''C'', JSONName = ''c'', Value = GSlice [GInt 2]\<rparr>,
                     \<lparr>Name = ''D'', JSONName = ''d'', Value = GSlice [GInt 3]\<rparr>] []))"
      and stb = "projr (stream_loop (sample_env\<lparr>range_files := rev\<rparr>)
                   (snd (flow_state (begin_merge (sample_env\<lparr>range_files := rev\<rparr>)
                    \<lparr>Name = ''B'', JSONName = ''b'', Value = GSlice [GInt 1]\<rparr>
                    [\<lparr>Name = ''C'', JSONName = ''c'', Value = GSlice [GInt 2]\<rparr>,
                     \<lparr>Name = ''D'', JSONName = ''d'', Value = GSlice [GInt 3]\<rparr>] []))) ''B''
                   (fst (flow_state (begin_merge (sample_env\<lparr>range_files := rev\<rparr>)
                    \<lparr>Name = ''B'', JSONName = ''b'', Value = GSlice [GInt 1]\<rparr>
                    [\<lparr>Name = ''C'', JSONName = ''c'', Value = GSlice [GInt 2]\<rparr>,
                     \<lparr>Name = ''D'', JSONName = ''d'', Value = GSlice [GInt 3]\<rparr>] [])))
                   [Inr (GStruct [(''B'', ''b'', GNilSlice), (''C'', ''c'', GSlice [GInt 4]),
                  (''D'', ''d'', GSlice [GInt 5])])])"]
  by (simp add: merge_defs)

lemma copy_back_source:
  "copy_back e (st\<lparr>source := x\<rparr>) k = (copy_back e st k)\<lparr>source := x\<rparr>"
  by (simp add: copy_back_def split: option.splits)

lemma foldl_copy_back_source:
  "foldl (copy_back e) (st\<lparr>source := x\<rparr>) ks = (foldl (copy_back e) st ks)\<lparr>source := x\<rparr>"
  by (induction ks arbitrary: st) (simp_all add: copy_back_source)

lemma finalize_source:
  "finalize e (st\<lparr>source := x\<rparr>) = (finalize e st)\<lparr>source := x\<rparr>"
proof -
  have sw: "st\<lparr>source := x, out := out st @ '']''\<rparr> = (st\<lparr>out := out st @ '']''\<rparr>)\<lparr>source := x\<rparr>"
    by simp
  have "foldl (copy_back e) (st\<lparr>source := x, out := out st @ '']''\<rparr>) ks
        = (foldl (copy_back e) (st\<lparr>out := out st @ '']''\<rparr>) ks)\<lparr>source := x\<rparr>" for ks
    unfolding sw by (rule foldl_copy_back_source)
  then show ?thesis
    by (simp add: finalize_def Let_def)
qed

lemma classify_member:
  "x \<in> set (fst (classify fs)) \<union> set (snd (classify fs))
   \<Longrightarrow> (\<exists>t. (Name x, t, Value x) \<in> set fs) \<and> \<not> IsNil (Value x)"
proof (induction fs)
  case Nil
  then show ?case by simp
next
  case (Cons f fs)
  obtain n t v where f: "f = (n, t, v)" by (cases f)
  obtain S nS where c: "classify fs = (S, nS)" by (cases "classify fs")
  have nil: "\<not> isSliceKind v \<Longrightarrow> \<not> IsNil v" by (cases v) simp_all
  show ?case
  proof (cases "x \<in> set S \<union> set nS")
    case True
    with Cons.IH c show ?thesis by auto
  next
    case False
    with Cons.prems c f have x: "x = \<lparr>Name = n, JSONName = jsonName n t, Value = v\<rparr>"
      and v: "\<not> isSliceKind v \<or> \<not> IsNil v"
      by (auto simp: Let_def split: if_splits)
    from v nil have "\<not> IsNil v" by blast
    with x f show ?thesis by auto
  qed
qed

lemma nil_field_not_classified:
  assumes dist: "distinct (map fst fs)" and nil: "(k, tag, GNilSlice) \<in> set fs"
  shows "k \<notin> Name ` set (fst (classify fs))" "k \<notin> Name ` set (snd (classify fs))"
proof -
  have only: "v = GNilSlice" if "(k, t, v) \<in> set fs" for t v
  proof -
    from dist nil that have "(tag, GNilSlice) = (t, v)"
      by (meson eq_key_imp_eq_value)
    then show ?thesis by simp
  qed
  have no: "Name x \<noteq> k" if "x \<in> set (fst (classify fs)) \<union> set (snd (classify fs))" for x
  proof
    assume "Name x = k"
    with classify_member [OF that] obtain t where "(k, t, Value x) \<in> set fs"
      and "\<not> IsNil (Value x)" by auto
    with only show False by fastforce
  qed
  show "k \<notin> Name ` set (fst (classify fs))" "k \<notin> Name ` set (snd (classify fs))"
    using no by auto
qed

lemma spill_frame:
  "spill e S fl = Inr fl' \<Longrightarrow> k \<notin> Name ` set S \<Longrightarrow> map_of fl' k = map_of fl k"
proof (induction S arbitrary: fl)
  case Nil
  then show ?case by simp
next
  case (Cons f S)
  from Cons.prems(1) obtain fh where fh: "map_of fl (Name f) = Some fh"
    by (auto split: option.splits)
  from Cons.prems(2) have ne: "Name f \<noteq> k" and rest: "k \<notin> Name ` set S" by auto
  from Cons.prems(1) fh
  have "spill e S (AList.update (Name f)
          (encode_trimmed e (fh @ '','') ''['' '']'' (Value f)) fl) = Inr fl'"
    by simp
  from Cons.IH [OF this rest] ne show ?case by (simp add: update_conv')
qed

lemma check_names_member:
  "check_names nm S nS = Some x \<Longrightarrow> x \<in> Name ` set S \<union> Name ` set nS"
proof -
  assume a: "check_names nm S nS = Some x"
  let ?bad = "map Name (filter (\<lambda>f. nm (Name f) \<noteq> Some True) S)
              @ map Name (filter (\<lambda>f. nm (Name f) \<noteq> Some False) nS)"
  from a have ne: "?bad \<noteq> []" and x: "x = last ?bad"
    by (auto simp: check_names_def Let_def split: if_splits)
  from ne have "last ?bad \<in> set ?bad" by (rule last_in_set)
  with x show ?thesis by auto
qed

text \<open>
  Claim C7, amended. Let a record (a struct or a pointer to one, with distinct field
  names) have a repeated field \<open>k\<close> that is nil. \<open>sliceFields\<close> returns it in neither
  list, so it is no field to check against the names of the first record. When the loop
  processes the record without panic, nothing is written for \<open>k\<close>: the output is
  unchanged when \<open>k\<close> is the first repeated field, the file of \<open>k\<close> is unchanged, and no
  violation is logged for \<open>k\<close>.
\<close>

theorem nil_field_writes_nothing:
  assumes rec: "r = GStruct fs \<or> r = GPtr (GStruct fs)"
      and dist: "distinct (map fst fs)"
      and nil: "(k, tag, GNilSlice) \<in> set fs"
  shows "sliceFields r = Inr (classify fs)
         \<and> k \<notin> Name ` set (fst (classify fs))
         \<and> k \<notin> Name ` set (snd (classify fs))
         \<and> (\<forall>st'. merge_part e nm n st r = Inr st' \<longrightarrow>
               (k = n \<longrightarrow> out st' = out st)
               \<and> map_of (files st') k = map_of (files st) k
               \<and> (\<exists>l. logged st' = logged st @ l \<and> LogNewField k \<notin> set l))"
proof -
  from rec have sfr: "sliceFields r = Inr (classify fs)" by (auto simp: sliceFields_def)
  note absent = nil_field_not_classified [OF dist nil]
  have "(k = n \<longrightarrow> out st' = out st)
        \<and> map_of (files st') k = map_of (files st) k
        \<and> (\<exists>l. logged st' = logged st @ l \<and> LogNewField k \<notin> set l)"
    if part: "merge_part e nm n st r = Inr st'" for st'
  proof -
    from part obtain f S' nS fl where sf: "sliceFields r = Inr (f # S', nS)"
      and sp: "spill e (if Name f = n then S' else f # S') (files st) = Inr fl"
      and st': "st' = st\<lparr>out := out st @ first_text e n f, files := fl,
                      logged := logged st @ new_field_log nm (f # S') nS\<rparr>"
      by (rule merge_part_InrE)
    from sf sfr have c: "classify fs = (f # S', nS)" by simp
    with absent have kS: "k \<notin> Name ` set (f # S')" and knS: "k \<notin> Name ` set nS"
      by simp_all
    then have kf: "Name f \<noteq> k" by auto
    have o: "k = n \<longrightarrow> out st' = out st"
      using kf by (auto simp: st' first_text_def)
    have "k \<notin> Name ` set (if Name f = n then S' else f # S')" using kS by auto
    from spill_frame [OF sp this] have fl: "map_of (files st') k = map_of (files st) k"
      by (simp add: st')
    have "LogNewField k \<notin> set (new_field_log nm (f # S') nS)"
    proof (cases "check_names nm (f # S') nS")
      case None
      then show ?thesis by (simp add: new_field_log_def)
    next
      case (Some x)
      from check_names_member [OF Some] kS knS have "x \<noteq> k" by auto
      with Some show ?thesis by (simp add: new_field_log_def)
    qed
    then have "\<exists>l. logged st' = logged st @ l \<and> LogNewField k \<notin> set l"
      by (auto simp: st')
    with o fl show ?thesis by blast
  qed
  with sfr absent show ?thesis by blast
qed

theorem nil_field_writes_nothing_witness:
  "distinct (map fst [(''A'', ''a'', GInt 7), (''B'', ''b'', GNilSlice), (''C'', ''c'', GSlice [GInt 3])])
   \<and> (''B'', ''b'', GNilSlice)
       \<in> set [(''A'', ''a'', GInt 7), (''B'', ''b'', GNilSlice), (''C'', ''c'', GSlice [GInt 3])]
   \<and> merge_part sample_env [''A'' \<mapsto> False, ''B'' \<mapsto> True, ''C'' \<mapsto> True] ''B''
        \<lparr>out = ''{\"b\":[1'', files = [(''C'', ''\"c\":[2'')], logged = [], source = []\<rparr>
        (GStruct [(''A'', ''a'', GInt 7), (''B'', ''b'', GNilSlice), (''C'', ''c'', GSlice [GInt 3])])
     = Inr \<lparr>out = ''{\"b\":[1'', files = [(''C'', ''\"c\":[2,3'')], logged = [], source = []\<rparr>"
  using nil_field_writes_nothing [where e = sample_env and k = "''B''" and n = "''B''"
      and tag = "''b''"
      and fs = "[(''A'', ''a'', GInt 7), (''B'', ''b'', GNilSlice), (''C'', ''c'', GSlice [GInt 3])]"
      and r = "GStruct [(''A'', ''a'', GInt 7), (''B'', ''b'', GNilSlice), (''C'', ''c'', GSlice [GInt 3])]"
      and nm = "[''A'' \<mapsto> False, ''B'' \<mapsto> True, ''C'' \<mapsto> True]"
      and st = "\<lparr>out = ''{\"b\":[1'', files = [(''C'', ''\"c\":[2'')], logged = [], source = []\<rparr>"]
  by (simp add: merge_defs)

text \<open>
  Claim C7, as stated, fails for a slice that is empty and not nil: \<open>sliceFields\<close> keeps
  it, and the loop writes a separator for it with no element behind.
\<close>

theorem empty_slice_writes_separator:
  "map_sum id out
     (mergeStreams sample_env
        (GStruct [(''A'', ''a'', GInt 7), (''B'', ''b'', GSlice [GInt 1])])
        [Inr (GStruct [(''A'', ''a'', GInt 7), (''B'', ''b'', GSlice [])])])
   = Inr ''{\"a\":7,\"b\":[1,]}\<newline>''"
  by (simp add: merge_defs)

lemma classify_variant:
  "list_all2 field_variant fs gs
   \<Longrightarrow> fst (classify gs) = fst (classify fs)
       \<and> map Name (snd (classify gs)) = map Name (snd (classify fs))"
proof (induction fs gs rule: list_all2_induct)
  case Nil
  show ?case by simp
next
  case (Cons f fs g gs)
  obtain n t v where f: "f = (n, t, v)" by (cases f)
  obtain n' t' v' where g: "g = (n', t', v')" by (cases g)
  from Cons.hyps(1) f g have eq: "n' = n" "t' = t"
    and v: "isSliceKind v \<Longrightarrow> v' = v" "\<not> isSliceKind v \<Longrightarrow> \<not> isSliceKind v'"
    by (auto simp: field_variant_def)
  obtain S nS where cf: "classify fs = (S, nS)" by (cases "classify fs")
  obtain S2 nS2 where cg: "classify gs = (S2, nS2)" by (cases "classify gs")
  from Cons.IH cf cg have ih: "S2 = S" "map Name nS2 = map Name nS" by simp_all
  show ?case
  proof (cases "isSliceKind v")
    case True
    with v(1) ih show ?thesis by (simp add: f g eq cf cg Let_def)
  next
    case False
    with v(2) ih show ?thesis by (simp add: f g eq cf cg Let_def)
  qed
qed

lemma sliceFields_variant:
  assumes "record_variant r r'"
  shows "(\<exists>p. sliceFields r = Inl p \<and> sliceFields r' = Inl p)
       \<or> (\<exists>S nS nS'. sliceFields r = Inr (S, nS) \<and> sliceFields r' = Inr (S, nS')
              \<and> map Name nS' = map Name nS)"
  using assms
proof (induction r r' rule: record_variant.induct)
  case (1 fs gs)
  then have "list_all2 field_variant fs gs" by simp
  from classify_variant [OF this] show ?case
    by (cases "classify fs"; cases "classify gs") (simp add: sliceFields_def)
next
  case (2 fs gs)
  then have "list_all2 field_variant fs gs" by simp
  from classify_variant [OF this] show ?case
    by (cases "classify fs"; cases "classify gs") (simp add: sliceFields_def)
qed (auto simp: sliceFields_def split: gval.splits)

lemma check_names_by_name:
  assumes "map Name nS' = map Name nS"
  shows "check_names nm S nS' = check_names nm S nS"
proof -
  have "map Name (filter (\<lambda>f. nm (Name f) \<noteq> Some False) xs)
        = filter (\<lambda>x. nm x \<noteq> Some False) (map Name xs)" for xs :: "field list"
    by (simp add: filter_map comp_def)
  with assms show ?thesis by (simp add: check_names_def)
qed

lemma merge_part_variant:
  assumes "record_variant r r'"
  shows "merge_part e nm n st r' = merge_part e nm n st r"
proof -
  from sliceFields_variant [OF assms] consider
      (panic) p where "sliceFields r = Inl p" "sliceFields r' = Inl p"
    | (fields) S nS nS' where "sliceFields r = Inr (S, nS)" "sliceFields r' = Inr (S, nS')"
        "map Name nS' = map Name nS"
    by blast
  then show ?thesis
  proof cases
    case panic
    then show ?thesis by (simp add: merge_part_reflect)
  next
    case fields
    show ?thesis
    proof (cases S)
      case Nil
      with fields show ?thesis by (simp add: merge_part_no_slices)
    next
      case (Cons f S')
      have nfl: "new_field_log nm (f # S') nS' = new_field_log nm (f # S') nS"
        by (simp add: new_field_log_def check_names_by_name [OF fields(3)])
      from fields Cons have sf: "sliceFields r = Inr (f # S', nS)"
        and sf': "sliceFields r' = Inr (f # S', nS')" by simp_all
      show ?thesis
        unfolding merge_part_eq [OF sf] merge_part_eq [OF sf'] nfl ..
    qed
  qed
qed

lemma stream_loop_variant:
  assumes "source_variant src src'"
  shows "same_result (stream_loop e nm n st src) (stream_loop e nm n st src')"
  using assms unfolding source_variant_def
proof (induction src src' arbitrary: st rule: list_all2_induct)
  case Nil
  show ?case by (simp add: same_result_def source_variant_def)
next
  case (Cons x xs y ys)
  show ?case
  proof (cases x)
    case (Inl err)
    with Cons.hyps(1) have y: "y = Inl err" by (cases y) simp_all
    from Cons.hyps(2) show ?thesis
      by (cases err) (simp_all add: Inl y same_result_def source_variant_def)
  next
    case (Inr r)
    with Cons.hyps(1) obtain r' where y: "y = Inr r'" and v: "record_variant r r'"
      by (cases y) simp_all
    show ?thesis
      using Cons.IH
      by (cases "merge_part e nm n st r") (simp_all add: Inr y merge_part_variant [OF v] same_result_def)
  qed
qed

lemma stream_loop_out:
  "stream_loop e nm n st src = Inr st'
   \<Longrightarrow> out st' = out st @ concat (map (part_text e n) (received src))"
proof (induction e nm n st src rule: stream_loop.induct)
  case (4 e names n0 st part rest)
  from "4.prems" obtain st1 where mp: "merge_part e names n0 st part = Inr st1"
    and lp: "stream_loop e names n0 st1 rest = Inr st'"
    by (cases "merge_part e names n0 st part") simp_all
  from mp have "out st1 = out st @ part_text e n0 part"
    by (elim merge_part_InrE) (simp add: part_text_def)
  with "4.IH" [OF mp lp] show ?case by simp
qed auto

lemma finalize_same:
  assumes "out t = out s" "files t = files s" "logged t = logged s"
  shows "out (finalize e t) = out (finalize e s) \<and> files (finalize e t) = files (finalize e s)
         \<and> logged (finalize e t) = logged (finalize e s)
         \<and> source (finalize e t) = source t"
proof -
  from assms have "t = s\<lparr>source := source t\<rparr>" by simp
  then have "finalize e t = (finalize e s)\<lparr>source := source t\<rparr>"
    using finalize_source by metis
  then show ?thesis by simp
qed

lemma begin_text_scalars:
  "take (length (''{'' @ scalars_text e notSlice)) (begin_text e lead notSlice @ t)
   = ''{'' @ scalars_text e notSlice"
  by (simp add: begin_text_def)

text \<open>
  Claim C6, amended. In a merge (the first record has a repeated field), the output
  begins with the opening brace and the scalar fields of the first record, each as its
  name, a colon, its value of the first record and a comma; and two streams that differ
  only in the values of the scalar fields of their later records give the same panic, or
  the same output, files and log.
\<close>

theorem scalars_from_first_record:
  assumes first: "sliceFields first = Inr (lead # others, notSlice)"
      and var: "source_variant src src'"
  shows "same_result (mergeStreams e first src) (mergeStreams e first src')
         \<and> (case mergeStreams e first src of
               Inl p \<Rightarrow> True
             | Inr s \<Rightarrow> take (length (''{'' @ scalars_text e notSlice)) (out s)
                          = ''{'' @ scalars_text e notSlice)"
proof (cases "begin_merge e lead others notSlice")
  case (Returned x)
  obtain st nm where x: "x = (st, nm)" by (cases x)
  from Returned x have "out st = begin_text e lead notSlice" by (simp add: begin_merge_out)
  then have "take (length (''{'' @ scalars_text e notSlice)) (out st)
             = ''{'' @ scalars_text e notSlice"
    using begin_text_scalars [of e notSlice lead "[]"] by simp
  with Returned x first var show ?thesis
    by (simp add: mergeStreams_def same_result_def)
next
  case (Next x)
  obtain st nm where x: "x = (st, nm)" by (cases x)
  from Next x have o: "out st = begin_text e lead notSlice" by (simp add: begin_merge_out)
  have run: "mergeStreams e first z = (case stream_loop e nm (Name lead) st z of
                Inl p \<Rightarrow> Inl p | Inr st' \<Rightarrow> Inr (finalize e st'))" for z
    using first Next x by (simp add: mergeStreams_def)
  have sr: "same_result (stream_loop e nm (Name lead) st src) (stream_loop e nm (Name lead) st src')"
    using var by (rule stream_loop_variant)
  show ?thesis
  proof (cases "stream_loop e nm (Name lead) st src")
    case (Inl p)
    with sr have "stream_loop e nm (Name lead) st src' = Inl p"
      by (cases "stream_loop e nm (Name lead) st src'") (simp_all add: same_result_def)
    with Inl show ?thesis by (simp add: run same_result_def)
  next
    case (Inr s)
    with sr obtain t where t: "stream_loop e nm (Name lead) st src' = Inr t"
      and eq: "out t = out s" "files t = files s" "logged t = logged s"
      and sv: "source_variant (source s) (source t)"
      by (cases "stream_loop e nm (Name lead) st src'") (simp_all add: same_result_def)
    from finalize_same [OF eq, of e] sv
    have "same_result (Inr (finalize e s)) (Inr (finalize e t))"
      by (simp add: same_result_def finalize_fields(3))
    moreover have "take (length (''{'' @ scalars_text e notSlice)) (out (finalize e s))
                   = ''{'' @ scalars_text e notSlice"
    proof -
      have "out (finalize e s)
            = begin_text e lead notSlice
              @ (concat (map (part_text e (Name lead)) (received src))
                 @ '']'' @ spill_text e (files s) @ ''}\<newline>'')"
        using stream_loop_out [OF Inr] o by (simp add: finalize_fields)
      then show ?thesis by (simp only: begin_text_scalars)
    qed
    ultimately show ?thesis by (simp add: run Inr t)
  qed
qed

text \<open>
  Claim C6, as stated for every input stream, fails when the first record has no
  repeated field: every record is then encoded as it is, and the scalar values of a later
  record are in the output.
\<close>

theorem passthrough_shows_later_scalars:
  "map_sum id out
     (mergeStreams sample_env (GStruct [(''A'', ''a'', GInt 1)])
        [Inr (GStruct [(''A'', ''a'', GInt 2)])])
   = Inr ''{\"a\":1}{\"a\":2}''
   \<and> map_sum id out
     (mergeStreams sample_env (GStruct [(''A'', ''a'', GInt 1)])
        [Inr (GStruct [(''A'', ''a'', GInt 3)])])
   = Inr ''{\"a\":1}{\"a\":3}''"
  by (simp add: merge_defs)

theorem scalars_from_first_record_witness:
  "source_variant
     [Inr (GStruct [(''A'', ''a'', GInt 1), (''B'', ''b'', GSlice [GInt 5])])]
     [Inr (GStruct [(''A'', ''a'', GInt 2), (''B'', ''b'', GSlice [GInt 5])])]
   \<and> map_sum id out
     (mergeStreams sample_env (GStruct [(''A'', ''a'', GInt 1), (''B'', ''b'', GSlice [GInt 4])])
        [Inr (GStruct [(''A'', ''a'', GInt 1), (''B'', ''b'', GSlice [GInt 5])])])
     = Inr ''{\"a\":1,\"b\":[4,5]}\<newline>''
   \<and> map_sum id out
     (mergeStreams sample_env (GStruct [(''A'', ''a'', GInt 1), (''B'', ''b'', GSlice [GInt 4])])
        [Inr (GStruct [(''A'', ''a'', GInt 2), (''B'', ''b'', GSlice [GInt 5])])])
     = Inr ''{\"a\":1,\"b\":[4,5]}\<newline>''
   \<and> ''{'' @ scalars_text sample_env [\<lparr>Name = ''A'', JSONName = ''a'', Value = GInt 1\<rparr>]
     = ''{\"a\":1,''"
  using scalars_from_first_record [where e = sample_env
     and first = "GStruct [(''A'', ''a'', GInt 1), (''B'', ''b'', GSlice [GInt 4])]"
     and lead = "\<lparr>Name = ''B'', JSONName = ''b'', Value = GSlice [GInt 4]\<rparr>"
     and others = "[]"
     and notSlice = "[\<lparr>Name = ''A'', JSONName = ''a'', Value = GInt 1\<rparr>]"
     and src = "[Inr (GStruct [(''A'', ''a'', GInt 1), (''B'', ''b'', GSlice [GInt 5])])]"
     and src' = "[Inr (GStruct [(''A'', ''a'', GInt 2), (''B'', ''b'', GSlice [GInt 5])])]"]
  by (simp add: merge_defs source_variant_def field_variant_def scalars_text_def trimmed_def)

text \<open>
  Claim C2. With an encoder that ends every value with a newline, the suffix \<open>]\<close> of
  the trim writers of lines 86 and 142 is never the last byte written: the list-close
  marker of every value of the first repeated field stays in the output, with the
  newline, and finalization adds one more.
\<close>

theorem list_close_marker_not_stripped:
  "map_sum id out
     (mergeStreams newline_env
        (GStruct [(''A'', ''a'', GInt 7), (''B'', ''b'', GSlice [GInt 1, GInt 2])])
        [Inr (GStruct [(''A'', ''a'', GInt 7), (''B'', ''b'', GSlice [GInt 3])])])
   = Inr ''{\"a\":7,\"b\":[1,2]\<newline>,3]\<newline>]}\<newline>''"
  by (simp add: mergeStreams_def sliceFields_def jsonName_def begin_merge_def write_scalar_def
        encode_trimmed_def Encode_def newline_env_def tw_defs quoted_def merge_part_def
        check_names_def finalize_def copy_back_def Let_def)

text \<open>
  The reason, for any bytes: a trim writer with suffix \<open>]\<close> passes on bytes that end
  with \<open>]\<close> and a newline as they are.
\<close>

lemma newline_keeps_list_close:
  "Close (Write (newTrimWriter d [] '']'') (b @ '']\<newline>'')) = d @ b @ '']\<newline>''"
  by (simp add: tw_defs Let_def)

lemma sliceFields_abc:
  assumes "\<not> isSliceKind a"
  shows "sliceFields (abc_record A B C (a, bs, cs))
         = Inr ((if bs = [] then [] else [abc_field B (GSlice bs)])
                @ (if cs = [] then [] else [abc_field C (GSlice cs)]),
                [abc_field A a])"
  using assms
  by (simp add: sliceFields_def abc_record_def slice_of_def abc_field_def Let_def)

lemma stream_loop_end:
  assumes "received tail = []"
  shows "\<exists>st'. stream_loop e nm n st tail = Inr st' \<and> out st' = out st \<and> files st' = files st"
proof (cases tail)
  case Nil
  then show ?thesis by simp
next
  case (Cons x rest)
  with assms obtain err where x: "x = Inl err" by (cases x) simp_all
  show ?thesis by (cases err) (simp_all add: Cons x)
qed

lemma abc_part:
  assumes names: "fst B \<noteq> fst C"
      and scal: "\<not> isSliceKind a"
      and some: "bs \<noteq> [] \<or> cs \<noteq> []"
      and fl: "files st = [(fst C, fc)]"
  shows "\<exists>st'. merge_part e nm (fst B) st (abc_record A B C (a, bs, cs)) = Inr st'
           \<and> out st' = out st @ more_text e bs
           \<and> files st' = [(fst C, fc @ more_text e cs)]"
proof -
  note sf = sliceFields_abc [OF scal, of A B C bs cs]
  show ?thesis
  proof (cases "bs = []")
    case True
    with some have cs: "cs \<noteq> []" by simp
    from sf True cs have "sliceFields (abc_record A B C (a, bs, cs))
                          = Inr (abc_field C (GSlice cs) # [], [abc_field A a])" by simp
    from merge_part_eq [OF this] names fl cs True show ?thesis
      by (simp add: abc_field_def first_text_def more_text_def encode_trimmed_eq)
  next
    case False
    show ?thesis
    proof (cases "cs = []")
      case True
      with sf False have "sliceFields (abc_record A B C (a, bs, cs))
                          = Inr (abc_field B (GSlice bs) # [], [abc_field A a])" by simp
      from merge_part_eq [OF this] fl False True show ?thesis
        by (simp add: abc_field_def first_text_def more_text_def)
    next
      case cs: False
      with sf False have "sliceFields (abc_record A B C (a, bs, cs))
           = Inr (abc_field B (GSlice bs) # [abc_field C (GSlice cs)], [abc_field A a])" by simp
      from merge_part_eq [OF this] fl False cs show ?thesis
        by (simp add: abc_field_def first_text_def more_text_def encode_trimmed_eq)
    qed
  qed
qed

lemma abc_loop:
  assumes names: "fst B \<noteq> fst C"
      and tail: "received tail = []"
  shows "list_all (\<lambda>r. \<not> isSliceKind (fst r)) recs
     \<Longrightarrow> list_all (\<lambda>r. fst (snd r) \<noteq> [] \<or> snd (snd r) \<noteq> []) recs
     \<Longrightarrow> files st = [(fst C, fc)]
     \<Longrightarrow> \<exists>st'. stream_loop e nm (fst B) st (map (Inr \<circ> abc_record A B C) recs @ tail) = Inr st'
           \<and> out st' = out st @ concat (map (more_text e \<circ> fst \<circ> snd) recs)
           \<and> files st' = [(fst C, fc @ concat (map (more_text e \<circ> snd \<circ> snd) recs))]"
proof (induction recs arbitrary: st fc)
  case Nil
  with stream_loop_end [OF tail, of e nm "fst B" st] show ?case by simp
next
  case (Cons r recs)
  obtain a bs cs where r: "r = (a, bs, cs)" by (cases r)
  from Cons.prems r have scal: "\<not> isSliceKind a" and some: "bs \<noteq> [] \<or> cs \<noteq> []"
    and rest: "list_all (\<lambda>r. \<not> isSliceKind (fst r)) recs"
              "list_all (\<lambda>r. fst (snd r) \<noteq> [] \<or> snd (snd r) \<noteq> []) recs"
    by simp_all
  from abc_part [OF names scal some Cons.prems(3), of e nm A]
  obtain st1 where mp: "merge_part e nm (fst B) st (abc_record A B C (a, bs, cs)) = Inr st1"
    and o1: "out st1 = out st @ more_text e bs"
    and f1: "files st1 = [(fst C, fc @ more_text e cs)]"
    by blast
  from Cons.IH [OF rest f1]
  obtain st' where "stream_loop e nm (fst B) st1 (map (Inr \<circ> abc_record A B C) recs @ tail) = Inr st'"
    "out st' = out st1 @ concat (map (more_text e \<circ> fst \<circ> snd) recs)"
    "files st' = [(fst C, (fc @ more_text e cs) @ concat (map (more_text e \<circ> snd \<circ> snd) recs))]"
    by blast
  with mp o1 show ?case by (simp add: r comp_def)
qed

lemma begin_merge_abc:
  assumes tmp: "temp_file e (fst C)"
  shows "\<exists>sta nm. begin_merge e (abc_field B vb) [abc_field C vc] [abc_field A a] = Next (sta, nm)
           \<and> out sta = ''{'' @ key_text e A @ '':'' @ trimmed e [] ''\<newline>'' a @ '',''
                        @ key_text e B @ '':'' @ trimmed e [] '']'' vb
           \<and> files sta = [(fst C, key_text e C @ '':['' @ trimmed e ''['' '']'' vc)]"
  using tmp
  by (simp add: begin_merge_def Let_def write_scalar_def encode_trimmed_eq abc_field_def
        key_text_def)

lemma spill_text_single:
  assumes "seek_ok e k" "mset (range_files e [k]) = mset [k]"
  shows "spill_text e [(k, fc)] = '','' @ fc @ '']''"
proof -
  from assms(2) have "range_files e [k] = [k]" by simp
  with assms(1) show ?thesis by (simp add: spill_text_def copy_text_def)
qed

text \<open>
  Claim C1, amended. For records of the schema \<open>A\<close>, \<open>B\<close>, \<open>C\<close> where the first record
  has elements in both \<open>B\<close> and \<open>C\<close> and every later record in at least one of them, the
  call returns and the output is: the scalar \<open>A\<close> of the first record; the list of \<open>B\<close>
  with the contribution of the first record and then, separated by commas, those of the
  later records that have elements in \<open>B\<close>, in arrival order; the list of \<open>C\<close> likewise
  with the records that have elements in \<open>C\<close>; and the closing brace. This holds for
  every encoder and every interleaving; a contribution is the encoded list as the trim
  writer passes it on.
\<close>

theorem concatenation_law:
  assumes names: "fst B \<noteq> fst C"
      and scalar: "\<not> isSliceKind a" "list_all (\<lambda>r. \<not> isSliceKind (fst r)) recs"
      and first: "bs \<noteq> []" "cs \<noteq> []"
      and later: "list_all (\<lambda>r. fst (snd r) \<noteq> [] \<or> snd (snd r) \<noteq> []) recs"
      and store: "temp_file e (fst C)" "seek_ok e (fst C)"
                 "mset (range_files e [fst C]) = mset [fst C]"
      and tail: "received tail = []"
  shows "map_sum id out
           (mergeStreams e (abc_record A B C (a, bs, cs))
              (map (Inr \<circ> abc_record A B C) recs @ tail))
         = Inr (''{'' @ key_text e A @ '':'' @ trimmed e [] ''\<newline>'' a @ '',''
                @ key_text e B @ '':'' @ trimmed e [] '']'' (GSlice bs)
                @ concat (map (more_text e \<circ> fst \<circ> snd) recs) @ '']''
                @ '','' @ key_text e C @ '':['' @ trimmed e ''['' '']'' (GSlice cs)
                @ concat (map (more_text e \<circ> snd \<circ> snd) recs) @ '']''
                @ ''}\<newline>'')"
proof -
  let ?src = "map (Inr \<circ> abc_record A B C) recs @ tail"
  have sf: "sliceFields (abc_record A B C (a, bs, cs))
            = Inr (abc_field B (GSlice bs) # [abc_field C (GSlice cs)], [abc_field A a])"
    using sliceFields_abc [OF scalar(1), of A B C bs cs] first by simp
  from begin_merge_abc [OF store(1), of B "GSlice bs" "GSlice cs" A a]
  obtain sta nm where start:
      "begin_merge e (abc_field B (GSlice bs)) [abc_field C (GSlice cs)] [abc_field A a]
       = Next (sta, nm)"
    and osta: "out sta = ''{'' @ key_text e A @ '':'' @ trimmed e [] ''\<newline>'' a @ '',''
                        @ key_text e B @ '':'' @ trimmed e [] '']'' (GSlice bs)"
    and fsta: "files sta = [(fst C, key_text e C @ '':['' @ trimmed e ''['' '']'' (GSlice cs))]"
    by blast
  have nB: "Name (abc_field B (GSlice bs)) = fst B" by (simp add: abc_field_def)
  from abc_loop [OF names tail scalar(2) later fsta, of e nm A]
  obtain stb where loop: "stream_loop e nm (fst B) sta ?src = Inr stb"
    and ostb: "out stb = out sta @ concat (map (more_text e \<circ> fst \<circ> snd) recs)"
    and fstb: "files stb = [(fst C, (key_text e C @ '':['' @ trimmed e ''['' '']'' (GSlice cs))
                                   @ concat (map (more_text e \<circ> snd \<circ> snd) recs))]"
    by blast
  have run: "mergeStreams e (abc_record A B C (a, bs, cs)) ?src = Inr (finalize e stb)"
    by (simp add: mergeStreams_def sf start nB loop)
  have sp: "spill_text e (files stb)
        = '','' @ key_text e C @ '':['' @ trimmed e ''['' '']'' (GSlice cs)
          @ concat (map (more_text e \<circ> snd \<circ> snd) recs) @ '']''"
    by (simp add: fstb spill_text_single [OF store(2,3)])
  show ?thesis by (simp add: run finalize_fields ostb osta sp)
qed

text \<open>
  Claim C1, as stated, fails for a field that is nil in the first record and has elements
  later: the names and the files are filled from the first record only, the field is
  reported as a new field, and no file is created for it in the loop.
\<close>

theorem late_field_has_no_store:
  "mergeStreams sample_env
     (GStruct [(''A'', ''a'', GInt 7), (''B'', ''b'', GSlice [GInt 1]), (''C'', ''c'', GNilSlice)])
     [Inr (GStruct [(''A'', ''a'', GInt 7), (''B'', ''b'', GSlice [GInt 2]),
                    (''C'', ''c'', GSlice [GInt 3])])]
   = Inl NilDereference"
  by (simp add: merge_defs)

theorem concatenation_law_witness:
  "map_sum id out
     (mergeStreams sample_env
        (abc_record (''A'', ''a'') (''B'', ''b'') (''C'', ''c'') (GInt 7, [GInt 1, GInt 2], [GInt 10]))
        (map (Inr \<circ> abc_record (''A'', ''a'') (''B'', ''b'') (''C'', ''c''))
           [(GInt 8, [], [GInt 11, GInt 12]), (GInt 9, [GInt 3], []), (GInt 9, [GInt 4], [GInt 13])]
         @ [Inl EOF]))
   = Inr ''{\"a\":7,\"b\":[1,2,3,4],\"c\":[10,11,12,13]}\<newline>''"
  using concatenation_law [where e = sample_env
      and A = "(''A'', ''a'')" and B = "(''B'', ''b'')" and C = "(''C'', ''c'')"
      and a = "GInt 7" and bs = "[GInt 1, GInt 2]" and cs = "[GInt 10]"
      and recs = "[(GInt 8, [], [GInt 11, GInt 12]), (GInt 9, [GInt 3], []), (GInt 9, [GInt 4], [GInt 13])]"
      and tail = "[Inl EOF]"]
  by (simp add: sample_env_def key_text_def trimmed_def encode_trimmed_def Encode_def tw_defs
        jsonName_def quoted_def more_text_def Let_def)

section \<open>Properties of the dial options\<close>

text \<open>
  Claim C10. With an empty \<open>CAFile\<close> the options hold per-RPC credentials exactly when
  \<open>AllowInsecurePasswordTransport\<close> is set, beside \<open>WithInsecure\<close> and no transport
  credentials. With a non-empty \<open>CAFile\<close>, the options that \<open>DialOpts\<close> returns without
  an error hold the basic-auth credentials and the TLS transport credentials, whatever
  the flag.
\<close>

theorem DialOpts_credentials:
  "(CAFile conf = [] \<longrightarrow>
      list_ex isPerRPCCredentials (fst (DialOpts load conf))
        = AllowInsecurePasswordTransport conf
      \<and> WithInsecure \<in> set (fst (DialOpts load conf))
      \<and> \<not> list_ex isTransportCredentials (fst (DialOpts load conf)))
   \<and> (CAFile conf \<noteq> [] \<and> snd (DialOpts load conf) = None \<longrightarrow>
      WithPerRPCCredentials (NewBasicAuth (Username conf) (Password conf))
        \<in> set (fst (DialOpts load conf))
      \<and> list_ex isTransportCredentials (fst (DialOpts load conf))
      \<and> WithInsecure \<notin> set (fst (DialOpts load conf)))"
  by (auto simp: DialOpts_def Let_def split: sum.splits)

theorem DialOpts_credentials_witness:
  "list_ex isPerRPCCredentials
        (fst (DialOpts (\<lambda>file host. (Inr ''tls'' :: string + string))
           \<lparr>PathPrefix = ''/x'', CAFile = [], ServerHostOverride = [],
            Username = ''u'', Password = ''p'', Log = (None :: unit option),
            AllowInsecurePasswordTransport = True, Tracer = (None :: unit option)\<rparr>))
   \<and> \<not> list_ex isPerRPCCredentials
        (fst (DialOpts (\<lambda>file host. (Inr ''tls'' :: string + string))
           \<lparr>PathPrefix = ''/x'', CAFile = [], ServerHostOverride = [],
            Username = ''u'', Password = ''p'', Log = (None :: unit option),
            AllowInsecurePasswordTransport = False, Tracer = (None :: unit option)\<rparr>))
   \<and> snd (DialOpts (\<lambda>file host. (Inr ''tls'' :: string + string))
           \<lparr>PathPrefix = [], CAFile = ''ca.pem'', ServerHostOverride = [],
            Username = ''u'', Password = ''p'', Log = (None :: unit option),
            AllowInsecurePasswordTransport = False, Tracer = (None :: unit option)\<rparr>) = None
   \<and> fst (DialOpts (\<lambda>file host. (Inr ''tls'' :: string + string))
           \<lparr>PathPrefix = [], CAFile = ''ca.pem'', ServerHostOverride = [],
            Username = ''u'', Password = ''p'', Log = (None :: unit option),
            AllowInsecurePasswordTransport = False, Tracer = (None :: unit option)\<rparr>)
      = [WithCompressor, WithDecompressor, WithPerRPCCredentials (NewBasicAuth ''u'' ''p''),
         WithTransportCredentials ''tls'']"
  using DialOpts_credentials [where load = "\<lambda>file host. (Inr ''tls'' :: string + string)" and conf =
           "\<lparr>PathPrefix = ''/x'', CAFile = [], ServerHostOverride = [],
            Username = ''u'', Password = ''p'', Log = (None :: unit option),
            AllowInsecurePasswordTransport = True, Tracer = (None :: unit option)\<rparr>"]
        DialOpts_credentials [where load = "\<lambda>file host. (Inr ''tls'' :: string + string)" and conf =
           "\<lparr>PathPrefix = ''/x'', CAFile = [], ServerHostOverride = [],
            Username = ''u'', Password = ''p'', Log = (None :: unit option),
            AllowInsecurePasswordTransport = False, Tracer = (None :: unit option)\<rparr>"]
        DialOpts_credentials [where load = "\<lambda>file host. (Inr ''tls'' :: string + string)" and conf =
           "\<lparr>PathPrefix = [], CAFile = ''ca.pem'', ServerHostOverride = [],
            Username = ''u'', Password = ''p'', Log = (None :: unit option),
            AllowInsecurePasswordTransport = False, Tracer = (None :: unit option)\<rparr>"]
  by (simp add: DialOpts_def)

end
